theory Spec2Isabelle
  imports Complex_Main "HOL-Library.Multiset"
begin

section \<open>Answer ranking of the judging bot (src/bot.ts)\<close>

text \<open>
  The development embeds \<^verbatim>\<open>pairwiseJudge\<close>, \<^verbatim>\<open>directRank\<close> and the validation of
  \<^verbatim>\<open>processPendingChallenges\<close>. The language model is an oracle: one response per
  call of \<^verbatim>\<open>askLLM\<close>, indexed by the number of calls made before it in the same
  invocation. Quantifying over all such sequences covers every behaviour of the
  endpoint, since the prompt reaches the control flow only through the response.
\<close>

subsection \<open>Data\<close>

record AnswerEntry =
  entry_id :: string
  content :: string

text \<open>A value produced by \<^verbatim>\<open>JSON.parse\<close>. Numbers matter only through being zero
  or not; an object carries its own properties, each key once.\<close>

datatype json =
    JNull
  | JBool bool
  | JNum int
  | JStr string
  | JArr "json list"
  | JObj "(string \<times> json) list"

text \<open>What one call of \<^verbatim>\<open>askLLM\<close> followed by \<^verbatim>\<open>JSON.parse\<close> gives: the call
  throws, the text is rejected by the parser, or a value is parsed.\<close>

datatype response = Failed | Garbage | Json json

type_synonym llm = "nat \<Rightarrow> response"

datatype js_error = TypeError

datatype js_value = Undefined | Value json

text \<open>Reading a property that no prototype defines (\<^verbatim>\<open>winner\<close>,
  \<^verbatim>\<open>answer_rankings\<close>, \<^verbatim>\<open>good_answers\<close>): on \<^verbatim>\<open>null\<close> it throws, on an object
  it reads the own property, on any other value it is \<^verbatim>\<open>undefined\<close>.\<close>

fun get_prop :: "json \<Rightarrow> string \<Rightarrow> js_error + js_value" where
  "get_prop JNull k = Inl TypeError"
| "get_prop (JObj kvs) k = Inr (case map_of kvs k of None \<Rightarrow> Undefined | Some v \<Rightarrow> Value v)"
| "get_prop (JBool b) k = Inr Undefined"
| "get_prop (JNum i) k = Inr Undefined"
| "get_prop (JStr s) k = Inr Undefined"
| "get_prop (JArr xs) k = Inr Undefined"

fun truthy :: "js_value \<Rightarrow> bool" where
  "truthy Undefined = False"
| "truthy (Value JNull) = False"
| "truthy (Value (JBool b)) = b"
| "truthy (Value (JNum i)) = (i \<noteq> 0)"
| "truthy (Value (JStr s)) = (s \<noteq> [])"
| "truthy (Value (JArr xs)) = True"
| "truthy (Value (JObj kvs)) = True"

text \<open>\<^verbatim>\<open>v || []\<close>\<close>

fun or_empty :: "js_value \<Rightarrow> json" where
  "or_empty Undefined = JArr []"
| "or_empty (Value j) = (if truthy (Value j) then j else JArr [])"

text \<open>\<^verbatim>\<open>for (const id of v)\<close>: an array gives its elements, a string its characters as
  one-character strings, anything else is not iterable.\<close>

fun iterate :: "json \<Rightarrow> js_error + json list" where
  "iterate (JArr xs) = Inr xs"
| "iterate (JStr s) = Inr (map (\<lambda>c. JStr [c]) s)"
| "iterate JNull = Inl TypeError"
| "iterate (JBool b) = Inl TypeError"
| "iterate (JNum i) = Inl TypeError"
| "iterate (JObj kvs) = Inl TypeError"

text \<open>\<^verbatim>\<open>v.filter(...)\<close>: only an array has a callable \<^verbatim>\<open>filter\<close>.\<close>

fun array_elems :: "json \<Rightarrow> js_error + json list" where
  "array_elems (JArr xs) = Inr xs"
| "array_elems JNull = Inl TypeError"
| "array_elems (JBool b) = Inl TypeError"
| "array_elems (JNum i) = Inl TypeError"
| "array_elems (JStr s) = Inl TypeError"
| "array_elems (JObj kvs) = Inl TypeError"

subsection \<open>A \<^verbatim>\<open>Set\<close> of strings\<close>

text \<open>\<^verbatim>\<open>new Set(xs)\<close> keeps the first occurrence of each element, in insertion order;
  \<^verbatim>\<open>size\<close> is the length of that list and iteration follows it.\<close>

definition js_set :: "string list \<Rightarrow> string list" where
  "js_set xs = foldl (\<lambda>acc x. if x \<in> set acc then acc else acc @ [x]) [] xs"

subsection \<open>The object \<^verbatim>\<open>winCounts\<close>\<close>

text \<open>
  \<^verbatim>\<open>winCounts\<close> is an ordinary object used as a dictionary. The model keeps its own
  properties in creation order. Two rules of ordinary objects are written out:
  an assignment to the key \<^verbatim>\<open>__proto__\<close> reaches the setter of
  \<^verbatim>\<open>Object.prototype\<close>, which ignores a number, so no own property appears; and
  \<^verbatim>\<open>Object.entries\<close> lists the keys that are array indices first, in ascending
  numeric order, then the other keys in creation order.
\<close>

type_synonym js_object = "(string \<times> nat) list"

definition proto_key :: string where
  "proto_key = ''__proto__''"

definition is_digit :: "char \<Rightarrow> bool" where
  "is_digit c = (c \<in> set ''0123456789'')"

definition digit_val :: "char \<Rightarrow> int" where
  "digit_val c = int (length (takeWhile (\<lambda>d. d \<noteq> c) ''0123456789''))"

definition dec_value :: "string \<Rightarrow> int" where
  "dec_value s = foldl (\<lambda>acc c. 10 * acc + digit_val c) 0 s"

text \<open>An array index is a canonical decimal numeral of a value up to \<open>2^32 - 2\<close>.\<close>

definition is_array_index :: "string \<Rightarrow> bool" where
  "is_array_index s =
     (case s of
        [] \<Rightarrow> False
      | c # cs \<Rightarrow> list_all is_digit s \<and> (if c = CHR ''0'' then cs = [] else True)
                 \<and> dec_value s \<le> 4294967294)"

definition obj_set :: "js_object \<Rightarrow> string \<Rightarrow> nat \<Rightarrow> js_object" where
  "obj_set ob k v =
     (if k = proto_key then ob
      else if k \<in> fst ` set ob then map (\<lambda>(k', v'). if k' = k then (k', v) else (k', v')) ob
      else ob @ [(k, v)])"

text \<open>\<^verbatim>\<open>winCounts[k]++\<close> (lines 427 and 428). Every identifier was assigned by the
  \<^verbatim>\<open>forEach\<close> before, so the read finds a number, except for \<^verbatim>\<open>__proto__\<close>, where
  the read gives the prototype object and the write of \<^verbatim>\<open>NaN\<close> is ignored like the
  write of zero: the object stays as it is. No other key is ever absent here.\<close>

definition obj_incr :: "js_object \<Rightarrow> string \<Rightarrow> js_object" where
  "obj_incr ob k = (case map_of ob k of None \<Rightarrow> ob | Some c \<Rightarrow> obj_set ob k (c + 1))"

definition own_entries :: "js_object \<Rightarrow> (string \<times> nat) list" where
  "own_entries ob =
     sort_key (\<lambda>e. dec_value (fst e)) (filter (\<lambda>e. is_array_index (fst e)) ob)
     @ filter (\<lambda>e. \<not> is_array_index (fst e)) ob"

subsection \<open>\<^verbatim>\<open>Array.prototype.sort\<close> with a comparator\<close>

text \<open>The sort is stable (ECMAScript 2019): an element goes before the first element
  that the comparator does not put before it, so equal elements keep their order.\<close>

fun js_insert :: "('a \<Rightarrow> 'a \<Rightarrow> int) \<Rightarrow> 'a \<Rightarrow> 'a list \<Rightarrow> 'a list" where
  "js_insert cmp x [] = [x]"
| "js_insert cmp x (y # ys) = (if cmp x y \<le> 0 then x # y # ys else y # js_insert cmp x ys)"

definition js_sort :: "('a \<Rightarrow> 'a \<Rightarrow> int) \<Rightarrow> 'a list \<Rightarrow> 'a list" where
  "js_sort cmp xs = foldr (js_insert cmp) xs []"

text \<open>\<^verbatim>\<open>([, a], [, b]) => b - a\<close>\<close>

definition by_wins_desc :: "string \<times> nat \<Rightarrow> string \<times> nat \<Rightarrow> int" where
  "by_wins_desc x y = int (snd y) - int (snd x)"

subsection \<open>The ranking engine\<close>

record judgement =
  rankings :: "string list"
  goodAnswers :: "string list"

text \<open>The fallback of \<^verbatim>\<open>directRank\<close> (lines 491 to 494), also the result for at most
  one answer (lines 386 to 389).\<close>

definition identity_result :: "AnswerEntry list \<Rightarrow> judgement" where
  "identity_result answers =
     \<lparr>rankings = map entry_id answers, goodAnswers = map entry_id answers\<rparr>"

text \<open>First loop of \<^verbatim>\<open>directRank\<close> (lines 474 to 478): known identifiers, each once.
  Only a string can be a member of \<^verbatim>\<open>allIds\<close>.\<close>

fun push_ranked :: "string list \<Rightarrow> string list \<Rightarrow> json \<Rightarrow> string list" where
  "push_ranked allIds fin (JStr s) = (if s \<in> set allIds \<and> s \<notin> set fin then fin @ [s] else fin)"
| "push_ranked allIds fin JNull = fin"
| "push_ranked allIds fin (JBool b) = fin"
| "push_ranked allIds fin (JNum i) = fin"
| "push_ranked allIds fin (JArr xs) = fin"
| "push_ranked allIds fin (JObj kvs) = fin"

text \<open>Second loop (lines 479 to 483): the identifiers still missing.\<close>

definition push_missing :: "string list \<Rightarrow> string \<Rightarrow> string list" where
  "push_missing fin i = (if i \<notin> set fin then fin @ [i] else fin)"

text \<open>\<^verbatim>\<open>goodIds.filter((id) => allIds.has(id))\<close> on the elements of an array.\<close>

fun known_strings :: "string list \<Rightarrow> json list \<Rightarrow> string list" where
  "known_strings allIds [] = []"
| "known_strings allIds (JStr s # js) =
     (if s \<in> set allIds then s # known_strings allIds js else known_strings allIds js)"
| "known_strings allIds (j # js) = known_strings allIds js"

text \<open>The body of the \<^verbatim>\<open>try\<close> block of \<^verbatim>\<open>directRank\<close> after parsing (lines 469 to
  488); \<open>Inl\<close> stands for an exception, which the \<^verbatim>\<open>catch\<close> receives. The element
  \<^verbatim>\<open>finalRankings[0]\<close> is \<^verbatim>\<open>undefined\<close> for an empty answer list, which
  \<^verbatim>\<open>pairwiseJudge\<close> never passes; \<open>take 1\<close> gives the empty list there.\<close>

definition rank_parsed :: "AnswerEntry list \<Rightarrow> json \<Rightarrow> js_error + judgement" where
  "rank_parsed answers parsed =
     (let allIds = js_set (map entry_id answers) in
      case get_prop parsed ''answer_rankings'' of
        Inl e \<Rightarrow> Inl e
      | Inr r \<Rightarrow>
          (case get_prop parsed ''good_answers'' of
             Inl e \<Rightarrow> Inl e
           | Inr g \<Rightarrow>
               (case iterate (or_empty r) of
                  Inl e \<Rightarrow> Inl e
                | Inr rankedIds \<Rightarrow>
                    (let fin1 = foldl (push_ranked allIds) [] rankedIds;
                         finalRankings = foldl push_missing fin1 allIds
                     in case array_elems (or_empty g) of
                          Inl e \<Rightarrow> Inl e
                        | Inr goodIds \<Rightarrow>
                            (let validGood = known_strings allIds goodIds;
                                 finalGood = (if length validGood > 0 then validGood
                                              else take 1 finalRankings)
                             in Inr \<lparr>rankings = finalRankings, goodAnswers = finalGood\<rparr>)))))"

text \<open>\<^verbatim>\<open>directRank\<close>: one oracle call; every exception ends in the fallback. The
  second component is the number of oracle calls made.\<close>

definition directRank :: "AnswerEntry list \<Rightarrow> llm \<Rightarrow> judgement \<times> nat" where
  "directRank answers orc =
     (case orc 0 of
        Failed \<Rightarrow> (identity_result answers, 1)
      | Garbage \<Rightarrow> (identity_result answers, 1)
      | Json parsed \<Rightarrow>
          (case rank_parsed answers parsed of
             Inl e \<Rightarrow> (identity_result answers, 1)
           | Inr res \<Rightarrow> (res, 1)))"

text \<open>The comparison schedule (lines 399 to 403): the \<^verbatim>\<open>for\<close> loop pushing two pairs
  per index.\<close>

definition build_pairs :: "nat \<Rightarrow> (nat \<times> nat) list" where
  "build_pairs n = fold (\<lambda>i pairs. pairs @ [(i, (i + 1) mod n), (i, (i + 2) mod n)]) [0..<n] []"

datatype outcome = WinsA | WinsB | NoWinner

text \<open>The \<^verbatim>\<open>try\<close> block of one comparison, from the response to the winner: a
  thrown call, a parse error and a \<^verbatim>\<open>null\<close> response are caught and count for
  nobody, like any winner other than \<^verbatim>\<open>"A"\<close> and \<^verbatim>\<open>"B"\<close>.\<close>

definition verdict :: "response \<Rightarrow> outcome" where
  "verdict r =
     (case r of
        Failed \<Rightarrow> NoWinner
      | Garbage \<Rightarrow> NoWinner
      | Json parsed \<Rightarrow>
          (case get_prop parsed ''winner'' of
             Inl e \<Rightarrow> NoWinner
           | Inr w \<Rightarrow> if w = Value (JStr ''A'') then WinsA
                      else if w = Value (JStr ''B'') then WinsB
                      else NoWinner))"

text \<open>One iteration of the comparison loop (lines 405 to 430) on the state (tally,
  calls made). An
  index outside the array would make \<^verbatim>\<open>a.id\<close> throw inside the \<^verbatim>\<open>try\<close>, before
  the call.\<close>

definition compare_step ::
  "AnswerEntry list \<Rightarrow> llm \<Rightarrow> nat \<times> nat \<Rightarrow> js_object \<times> nat \<Rightarrow> js_object \<times> nat" where
  "compare_step answers orc p st =
     (case p of (iA, iB) \<Rightarrow> case st of (winCounts, calls) \<Rightarrow>
        if iA = iB then (winCounts, calls)
        else if iA < length answers \<and> iB < length answers then
          (let a = answers ! iA; b = answers ! iB in
             case verdict (orc calls) of
               WinsA \<Rightarrow> (obj_incr winCounts (entry_id a), calls + 1)
             | WinsB \<Rightarrow> (obj_incr winCounts (entry_id b), calls + 1)
             | NoWinner \<Rightarrow> (winCounts, calls + 1))
        else (winCounts, calls))"

definition run_comparisons ::
  "AnswerEntry list \<Rightarrow> llm \<Rightarrow> (nat \<times> nat) list \<Rightarrow> js_object \<times> nat \<Rightarrow> js_object \<times> nat" where
  "run_comparisons answers orc pairs st = fold (compare_step answers orc) pairs st"

text \<open>\<^verbatim>\<open>answers.forEach((a) => (winCounts[a.id] = 0))\<close>\<close>

definition init_counts :: "AnswerEntry list \<Rightarrow> js_object" where
  "init_counts answers = fold (\<lambda>a w. obj_set w (entry_id a) 0) answers []"

text \<open>The tally after all comparisons, with the number of oracle calls.\<close>

definition tournament :: "AnswerEntry list \<Rightarrow> llm \<Rightarrow> js_object \<times> nat" where
  "tournament answers orc =
     run_comparisons answers orc (build_pairs (length answers)) (init_counts answers, 0)"

text \<open>\<^verbatim>\<open>Math.ceil(m / 2)\<close> on a length \<open>m\<close>\<close>

definition ceil_half :: "nat \<Rightarrow> nat" where
  "ceil_half m = (m + 1) div 2"

definition pairwiseJudge :: "AnswerEntry list \<Rightarrow> llm \<Rightarrow> judgement \<times> nat" where
  "pairwiseJudge answers orc =
     (let n = length answers in
      if n \<le> 1 then (identity_result answers, 0)
      else if n \<le> 3 then directRank answers orc
      else
        (case tournament answers orc of (winCounts, calls) \<Rightarrow>
           (let sorted = map fst (js_sort by_wins_desc (own_entries winCounts));
                goodCount = max 1 (ceil_half (length sorted))
            in (\<lparr>rankings = sorted, goodAnswers = take goodCount sorted\<rparr>, calls))))"

subsection \<open>Validation in \<^verbatim>\<open>processPendingChallenges\<close>\<close>

text \<open>Lines 613 to 631: the two checks, then the vote with the ranking and the good
  list as they are.\<close>

datatype round_result = Skipped | Submitted "string list" "string list"

definition validate_vote ::
  "AnswerEntry list \<Rightarrow> string list \<Rightarrow> string list \<Rightarrow> round_result" where
  "validate_vote answerEntries rks good =
     (let allIds = js_set (map entry_id answerEntries);
          rankingSet = js_set rks
      in if length rks \<noteq> length allIds then Skipped
         else if list_ex (\<lambda>i. i \<notin> set rankingSet) allIds then Skipped
         else if list_ex (\<lambda>i. i \<notin> set allIds) good then Skipped
         else Submitted rks good)"

text \<open>The round from the fetched answers to the vote (lines 576 to 631): an empty
  answer list is skipped before judging.\<close>

definition judge_round :: "AnswerEntry list \<Rightarrow> llm \<Rightarrow> round_result" where
  "judge_round answerEntries orc =
     (if length answerEntries = 0 then Skipped
      else case pairwiseJudge answerEntries orc of
             (res, calls) \<Rightarrow> validate_vote answerEntries (rankings res) (goodAnswers res))"

subsection \<open>Notions used to state the properties\<close>

text \<open>The order in which \<^verbatim>\<open>Object.entries\<close> lists a set of keys created in the order
  \<open>ks\<close>: array indices ascending, then the rest in creation order.\<close>

definition property_order :: "string list \<Rightarrow> string list" where
  "property_order ks =
     sort_key dec_value (filter is_array_index ks) @ filter (\<lambda>k. \<not> is_array_index k) ks"

text \<open>Keeping an element at its first occurrence only.\<close>

fun first_occurrences :: "'a list \<Rightarrow> 'a list" where
  "first_occurrences [] = []"
| "first_occurrences (x # xs) = x # filter (\<lambda>y. y \<noteq> x) (first_occurrences xs)"

text \<open>Sample data: an answer with a given identifier, and three endpoints: one that
  always throws, one that always answers a tie, one that always prefers A.\<close>

definition entry :: "string \<Rightarrow> AnswerEntry" where
  "entry s = \<lparr>entry_id = s, content = ''text''\<rparr>"

definition always_failing :: llm where
  "always_failing k = Failed"

definition always_tie :: llm where
  "always_tie k = Json (JObj [(''winner'', JStr ''tie'')])"

definition always_first :: llm where
  "always_first k = Json (JObj [(''winner'', JStr ''A'')])"

text \<open>An endpoint whose structured answer names one identifier twice as good.\<close>

definition repeating_good :: llm where
  "repeating_good k =
     Json (JObj [(''answer_rankings'', JArr [JStr ''a'', JStr ''b'']),
                 (''good_answers'', JArr [JStr ''a'', JStr ''a''])])"

definition four_answers :: "AnswerEntry list" where
  "four_answers = [entry ''a'', entry ''b'', entry ''c'', entry ''d'']"

text \<open>Three answers and an endpoint whose ordering repeats an identifier, names an
  unknown one and a number, and omits two candidates; its good list is all unknown.\<close>

definition three_answers :: "AnswerEntry list" where
  "three_answers = [entry ''a'', entry ''b'', entry ''c'']"

definition careless_ranking :: llm where
  "careless_ranking k =
     Json (JObj [(''answer_rankings'', JArr [JStr ''c'', JStr ''z'', JStr ''c'', JNum 3]),
                 (''good_answers'', JArr [JStr ''q''])])"

text \<open>Four answers whose first two identifiers are array indices, out of numeric order.\<close>

definition numeric_answers :: "AnswerEntry list" where
  "numeric_answers = [entry ''2'', entry ''1'', entry ''x'', entry ''y'']"

text \<open>Answers of which the first has the identifier \<^verbatim>\<open>__proto__\<close>.\<close>

definition proto_answers :: "AnswerEntry list" where
  "proto_answers = [entry ''__proto__'', entry ''a'', entry ''b'', entry ''c'']"

definition proto_five :: "AnswerEntry list" where
  "proto_five = [entry ''__proto__'', entry ''a'', entry ''b'', entry ''c'', entry ''d'']"

text \<open>Three such answers for the direct path, and two answers of which the first has
  the identifier \<^verbatim>\<open>__proto__\<close>.\<close>

definition numeric_three :: "AnswerEntry list" where
  "numeric_three = [entry ''2'', entry ''1'', entry ''x'']"

definition proto_pair :: "AnswerEntry list" where
  "proto_pair = [entry ''__proto__'', entry ''a'']"

section \<open>Properties\<close>

subsection \<open>Sets of strings\<close>

lemma js_set_step_set:
  "set (foldl (\<lambda>acc x. if x \<in> set acc then acc else acc @ [x]) acc xs) = set acc \<union> set xs"
  by (induction xs arbitrary: acc) auto

lemma js_set_step_distinct:
  "distinct acc \<Longrightarrow> distinct (foldl (\<lambda>acc x. if x \<in> set acc then acc else acc @ [x]) acc xs)"
  by (induction xs arbitrary: acc) auto

lemma js_set_step_id:
  "distinct (acc @ xs) \<Longrightarrow> foldl (\<lambda>acc x. if x \<in> set acc then acc else acc @ [x]) acc xs = acc @ xs"
  by (induction xs arbitrary: acc) auto

lemma set_js_set: "set (js_set xs) = set xs"
  by (simp add: js_set_def js_set_step_set)

lemma distinct_js_set: "distinct (js_set xs)"
  by (simp add: js_set_def js_set_step_distinct)

lemma js_set_distinct_id: "distinct xs \<Longrightarrow> js_set xs = xs"
  using js_set_step_id [of "[]" xs] by (simp add: js_set_def)

lemma length_js_set: "length (js_set xs) = card (set xs)"
  using distinct_card [OF distinct_js_set, of xs] by (simp add: set_js_set)

subsection \<open>Sorting\<close>

lemma js_insert_by_wins: "js_insert by_wins_desc x ys = insort_key (\<lambda>e. - int (snd e)) x ys"
  by (induction ys) (auto simp: by_wins_desc_def)

lemma js_sort_by_wins: "js_sort by_wins_desc xs = sort_key (\<lambda>e. - int (snd e)) xs"
  by (induction xs) (simp_all add: js_sort_def js_insert_by_wins)

lemma mset_js_sort: "mset (js_sort by_wins_desc xs) = mset xs"
  by (simp add: js_sort_by_wins)

lemma js_sort_stable:
  "filter (\<lambda>e. snd e = c) (js_sort by_wins_desc xs) = filter (\<lambda>e. snd e = c) xs"
  using sort_key_stable [of "\<lambda>e. - int (snd e)" "- int c" xs] by (simp add: js_sort_by_wins)

lemma js_sort_descending:
  "sorted_wrt (\<lambda>x y. snd y \<le> snd x) (js_sort by_wins_desc xs)"
proof -
  have "sorted (map (\<lambda>e. - int (snd e)) (sort_key (\<lambda>e. - int (snd e)) xs))"
    by (rule sorted_sort_key)
  then show ?thesis
    by (simp add: js_sort_by_wins sorted_map sorted_wrt_iff_nth_less)
qed

lemma js_sort_all_equal:
  assumes "\<forall>e \<in> set xs. snd e = c"
  shows "js_sort by_wins_desc xs = xs"
proof -
  have "filter (\<lambda>e. snd e = c) (js_sort by_wins_desc xs) = js_sort by_wins_desc xs"
    using assms by (simp add: js_sort_by_wins)
  moreover have "filter (\<lambda>e. snd e = c) xs = xs"
    using assms by simp
  ultimately show ?thesis using js_sort_stable [of c xs] by simp
qed

subsection \<open>Objects\<close>

lemma keys_obj_set:
  "map fst (obj_set ob k v) =
     (if k = proto_key \<or> k \<in> set (map fst ob) then map fst ob else map fst ob @ [k])"
  by (auto simp: obj_set_def split: prod.splits intro!: map_idI)

lemma keys_obj_incr: "map fst (obj_incr ob k) = map fst ob"
proof (cases "map_of ob k")
  case None
  then show ?thesis by (simp add: obj_incr_def)
next
  case (Some c)
  then have "k \<in> set (map fst ob)"
    using map_of_SomeD [of ob k c] by force
  with Some show ?thesis by (simp add: obj_incr_def keys_obj_set)
qed

lemma mset_own_entries: "mset (own_entries ob) = mset ob"
  by (simp add: own_entries_def)


lemma map_insort_key_comp:
  "map g (insort_key (\<lambda>e. f (g e)) x xs) = insort_key f (g x) (map g xs)"
  by (induction xs) auto

lemma map_sort_key_comp: "map g (sort_key (\<lambda>e. f (g e)) xs) = sort_key f (map g xs)"
  by (induction xs) (simp_all add: map_insort_key_comp)

lemma keys_own_entries: "map fst (own_entries ob) = property_order (map fst ob)"
  by (simp add: own_entries_def property_order_def filter_map comp_def map_sort_key_comp)

lemma property_order_plain:
  "list_all (\<lambda>k. \<not> is_array_index k) ks \<Longrightarrow> property_order ks = ks"
  by (simp add: property_order_def list_all_iff)

lemma mset_property_order: "mset (property_order ks) = mset ks"
  by (simp add: property_order_def)

subsection \<open>The tally\<close>

lemma init_counts_fold:
  "distinct (map fst ob @ map entry_id answers) \<Longrightarrow>
   fold (\<lambda>a w. obj_set w (entry_id a) 0) answers ob =
     ob @ map (\<lambda>k. (k, 0)) (filter (\<lambda>k. k \<noteq> proto_key) (map entry_id answers))"
proof (induction answers arbitrary: ob)
  case Nil
  then show ?case by simp
next
  case (Cons a answers)
  let ?k = "entry_id a"
  have fresh: "?k \<notin> fst ` set ob" using Cons.prems by auto
  show ?case
  proof (cases "?k = proto_key")
    case True
    then have "obj_set ob ?k 0 = ob" by (simp add: obj_set_def)
    moreover have "distinct (map fst ob @ map entry_id answers)" using Cons.prems by simp
    ultimately show ?thesis using Cons.IH [of ob] True by simp
  next
    case False
    then have upd: "obj_set ob ?k 0 = ob @ [(?k, 0)]" using fresh by (simp add: obj_set_def)
    have "distinct (map fst (ob @ [(?k, 0)]) @ map entry_id answers)" using Cons.prems by auto
    from Cons.IH [OF this] show ?thesis using False upd by simp
  qed
qed

lemma init_counts_distinct:
  "distinct (map entry_id answers) \<Longrightarrow>
   init_counts answers = map (\<lambda>k. (k, 0)) (filter (\<lambda>k. k \<noteq> proto_key) (map entry_id answers))"
  using init_counts_fold [of "[]" answers] by (simp add: init_counts_def)

lemma keys_compare_step: "map fst (fst (compare_step answers orc p st)) = map fst (fst st)"
  by (cases p; cases st) (simp add: compare_step_def keys_obj_incr Let_def split: outcome.splits)

lemma keys_run_comparisons: "map fst (fst (run_comparisons answers orc ps st)) = map fst (fst st)"
  unfolding run_comparisons_def
  by (induction ps arbitrary: st) (simp_all add: keys_compare_step)

lemma keys_tournament:
  "distinct (map entry_id answers) \<Longrightarrow>
   map fst (fst (tournament answers orc)) = filter (\<lambda>k. k \<noteq> proto_key) (map entry_id answers)"
  by (simp add: tournament_def keys_run_comparisons init_counts_distinct comp_def)

lemma no_winner_step:
  "\<forall>k. verdict (orc k) = NoWinner \<Longrightarrow> fst (compare_step answers orc p st) = fst st"
  by (cases p; cases st) (simp add: compare_step_def Let_def)

lemma no_winner_run:
  "\<forall>k. verdict (orc k) = NoWinner \<Longrightarrow> fst (run_comparisons answers orc ps st) = fst st"
  unfolding run_comparisons_def
  by (induction ps arbitrary: st) (simp_all add: no_winner_step)

subsection \<open>Trivial cases\<close>

text \<open>
  C9. \<^verbatim>\<open>pairwiseJudge\<close> on the empty list returns an empty ranking and an empty good
  list; on a single candidate it returns that candidate's identifier as ranking and
  as good list. In both cases the number of oracle calls is zero.
\<close>

theorem trivial_cases:
  "pairwiseJudge [] orc = (\<lparr>rankings = [], goodAnswers = []\<rparr>, 0) \<and>
   pairwiseJudge [x] orc = (\<lparr>rankings = [entry_id x], goodAnswers = [entry_id x]\<rparr>, 0)"
  by (simp add: pairwiseJudge_def identity_result_def)

subsection \<open>Duplicates among the good identifiers\<close>

text \<open>
  C10. In direct mode there is a parseable response, with a good list repeating a known
  identifier, for which the good list of \<^verbatim>\<open>directRank\<close> holds that identifier twice:
  the good identifiers are filtered for membership and never de-duplicated. The
  validation of the caller checks membership only, so the round submits the
  duplicated identifier.
\<close>

theorem duplicate_good_submitted:
  "directRank [entry ''a'', entry ''b''] repeating_good =
     (\<lparr>rankings = [''a'', ''b''], goodAnswers = [''a'', ''a'']\<rparr>, 1) \<and>
   \<not> distinct (goodAnswers (fst (pairwiseJudge [entry ''a'', entry ''b''] repeating_good))) \<and>
   judge_round [entry ''a'', entry ''b''] repeating_good = Submitted [''a'', ''b''] [''a'', ''a'']"
  by (simp add: judge_round_def pairwiseJudge_def directRank_def rank_parsed_def repeating_good_def
      entry_def js_set_def push_missing_def validate_vote_def)

subsection \<open>Validation by the caller\<close>

lemma permutation_check:
  "(length rks = length (js_set ids) \<and> \<not> list_ex (\<lambda>i. i \<notin> set (js_set rks)) (js_set ids))
     = (distinct rks \<and> set rks = set ids)"
proof
  assume a: "length rks = length (js_set ids) \<and> \<not> list_ex (\<lambda>i. i \<notin> set (js_set rks)) (js_set ids)"
  then have sub: "set ids \<subseteq> set rks"
    by (auto simp: list_ex_iff set_js_set)
  have len: "length rks = card (set ids)" using a by (simp add: length_js_set)
  have "card (set rks) \<le> length rks" by (rule card_length)
  moreover have "card (set ids) \<le> card (set rks)" using sub by (simp add: card_mono)
  ultimately have c: "card (set rks) = length rks" using len by simp
  then have d: "distinct rks" by (simp add: card_distinct)
  have "set ids = set rks"
    using sub c len by (intro card_subset_eq) simp_all
  with d show "distinct rks \<and> set rks = set ids" by simp
next
  assume "distinct rks \<and> set rks = set ids"
  then show "length rks = length (js_set ids) \<and> \<not> list_ex (\<lambda>i. i \<notin> set (js_set rks)) (js_set ids)"
    using distinct_card [of rks] by (auto simp: list_ex_iff set_js_set length_js_set)
qed

text \<open>
  C5. The validation submits a result exactly when the ranking is a permutation of the
  set of answer identifiers (no repetition, the same members) and every good identifier
  belongs to that set; otherwise the round is skipped and nothing is submitted. The
  test of the code, the length of the ranking equals the size of the identifier set and
  every known identifier occurs in the ranking, holds exactly for such a permutation.
\<close>

theorem validation_accepts_iff:
  "validate_vote answers rks good =
     (if (distinct rks \<and> set rks = set (map entry_id answers))
          \<and> set good \<subseteq> set (map entry_id answers)
      then Submitted rks good else Skipped)
   \<and> ((length rks = length (js_set (map entry_id answers))
        \<and> list_all (\<lambda>i. i \<in> set (js_set rks)) (js_set (map entry_id answers)))
       = (distinct rks \<and> set rks = set (map entry_id answers)))"
proof
  show "validate_vote answers rks good =
     (if (distinct rks \<and> set rks = set (map entry_id answers))
          \<and> set good \<subseteq> set (map entry_id answers)
      then Submitted rks good else Skipped)"
    using permutation_check [of rks "map entry_id answers"]
    by (auto simp: validate_vote_def Let_def list_ex_iff set_js_set)
  show "(length rks = length (js_set (map entry_id answers))
        \<and> list_all (\<lambda>i. i \<in> set (js_set rks)) (js_set (map entry_id answers)))
       = (distinct rks \<and> set rks = set (map entry_id answers))"
    using permutation_check [of rks "map entry_id answers"]
    by (simp add: list_ex_iff list_all_iff)
qed

theorem validation_accepts_iff_witness:
  "validate_vote [entry ''a'', entry ''b''] [''b'', ''a''] [''a''] = Submitted [''b'', ''a''] [''a'']
   \<and> validate_vote [entry ''a'', entry ''b''] [''b'', ''b''] [''a''] = Skipped
   \<and> validate_vote [entry ''a'', entry ''b''] [''b'', ''a''] [''z''] = Skipped"
  using validation_accepts_iff [of "[entry ''a'', entry ''b'']" "[''b'', ''a'']" "[''a'']"]
    validation_accepts_iff [of "[entry ''a'', entry ''b'']" "[''b'', ''b'']" "[''a'']"]
    validation_accepts_iff [of "[entry ''a'', entry ''b'']" "[''b'', ''a'']" "[''z'']"]
  by (auto simp: entry_def)

subsection \<open>The comparison schedule\<close>

lemma build_pairs_fold:
  "fold (\<lambda>i pairs. pairs @ [(i, Suc i mod n), (i, Suc (Suc i) mod n)]) xs acc =
     acc @ concat (map (\<lambda>i. [(i, Suc i mod n), (i, Suc (Suc i) mod n)]) xs)"
  by (induction xs arbitrary: acc) simp_all

lemma build_pairs_concat:
  "build_pairs n = concat (map (\<lambda>i. [(i, Suc i mod n), (i, Suc (Suc i) mod n)]) [0..<n])"
  by (simp add: build_pairs_def build_pairs_fold)

lemma pairs_prefix_length:
  "length (concat (map (\<lambda>i. [(i, Suc i mod n), (i, Suc (Suc i) mod n)]) [0..<m])) = 2 * m"
  by (induction m) simp_all

lemma pairs_prefix_nth:
  "i < m \<Longrightarrow>
   concat (map (\<lambda>i. [(i, Suc i mod n), (i, Suc (Suc i) mod n)]) [0..<m]) ! (2 * i) = (i, Suc i mod n) \<and>
   concat (map (\<lambda>i. [(i, Suc i mod n), (i, Suc (Suc i) mod n)]) [0..<m]) ! (2 * i + 1) = (i, Suc (Suc i) mod n)"
proof (induction m)
  case 0
  then show ?case by simp
next
  case (Suc m)
  show ?case
  proof (cases "i < m")
    case True
    then have "2 * i < 2 * m" "Suc (2 * i) < 2 * m" by simp_all
    then show ?thesis using Suc.IH [OF True] by (simp add: nth_append pairs_prefix_length)
  next
    case False
    then have "i = m" using Suc.prems by simp
    then show ?thesis by (simp add: nth_append pairs_prefix_length)
  qed
qed

lemma pairs_prefix_left:
  "length (filter (\<lambda>p. fst p = j) (concat (map (\<lambda>i. [(i, Suc i mod n), (i, Suc (Suc i) mod n)]) [0..<m])))
     = (if j < m then 2 else 0)"
  by (induction m) auto

lemma pairs_prefix_right:
  "length (filter (\<lambda>p. snd p = j) (concat (map (\<lambda>i. [(i, Suc i mod n), (i, Suc (Suc i) mod n)]) [0..<m])))
     = length (filter (\<lambda>i. Suc i mod n = j) [0..<m]) + length (filter (\<lambda>i. Suc (Suc i) mod n = j) [0..<m])"
  by (induction m) auto

lemma count_index: "length (filter (\<lambda>i. i = c) [0..<n]) = (if c < n then 1 else 0)"
  by (induction n) auto

lemma succ_mod: "i < n \<Longrightarrow> Suc i mod n = (if Suc i = n then 0 else Suc i)"
  by (auto simp: mod_if)

lemma succ2_mod: "i < n \<Longrightarrow> 2 \<le> n \<Longrightarrow> Suc (Suc i) mod n = (if n \<le> Suc (Suc i) then Suc (Suc i) - n else Suc (Suc i))"
  by (auto simp: mod_if le_mod_geq)

lemma count_succ_mod:
  assumes "j < n"
  shows "length (filter (\<lambda>i. Suc i mod n = j) [0..<n]) = 1"
proof -
  let ?c = "if j = 0 then n - 1 else j - 1"
  have "filter (\<lambda>i. Suc i mod n = j) [0..<n] = filter (\<lambda>i. i = ?c) [0..<n]"
    using assms by (intro filter_cong) (auto simp: succ_mod)
  moreover have "?c < n" using assms by (auto split: if_splits)
  ultimately show ?thesis by (simp only: count_index if_True)
qed

lemma count_succ2_mod:
  assumes "j < n" "2 \<le> n"
  shows "length (filter (\<lambda>i. Suc (Suc i) mod n = j) [0..<n]) = 1"
proof -
  let ?c = "if j < 2 then n - 2 + j else j - 2"
  have "filter (\<lambda>i. Suc (Suc i) mod n = j) [0..<n] = filter (\<lambda>i. i = ?c) [0..<n]"
    using assms by (intro filter_cong) (auto simp: succ2_mod)
  moreover have "?c < n" using assms by (auto split: if_splits)
  ultimately show ?thesis by (simp only: count_index if_True)
qed

lemma build_pairs_members:
  assumes "p \<in> set (build_pairs n)" "3 \<le> n"
  shows "fst p < n \<and> snd p < n \<and> fst p \<noteq> snd p"
proof -
  from assms(1) obtain i where i: "i < n" "p = (i, Suc i mod n) \<or> p = (i, Suc (Suc i) mod n)"
    by (auto simp: build_pairs_concat)
  then show ?thesis using assms(2) by (auto simp: succ_mod succ2_mod split: if_splits)
qed

lemma calls_compare_step:
  "fst p \<noteq> snd p \<Longrightarrow> fst p < length answers \<Longrightarrow> snd p < length answers \<Longrightarrow>
   snd (compare_step answers orc p st) = snd st + 1"
  by (cases p; cases st) (simp add: compare_step_def Let_def split: outcome.splits)

lemma calls_run_comparisons:
  "\<forall>p \<in> set ps. fst p \<noteq> snd p \<and> fst p < length answers \<and> snd p < length answers \<Longrightarrow>
   snd (run_comparisons answers orc ps st) = snd st + length ps"
  unfolding run_comparisons_def
  by (induction ps arbitrary: st) (simp_all add: calls_compare_step)

lemma calls_tournament:
  assumes "3 \<le> length answers"
  shows "snd (tournament answers orc) = 2 * length answers"
proof -
  have "\<forall>p \<in> set (build_pairs (length answers)).
          fst p \<noteq> snd p \<and> fst p < length answers \<and> snd p < length answers"
    using build_pairs_members [OF _ assms] by blast
  from calls_run_comparisons [OF this] show ?thesis
    by (simp add: tournament_def build_pairs_concat pairs_prefix_length)
qed

text \<open>
  C6. For \<open>n \<ge> 4\<close> candidates the schedule of \<^verbatim>\<open>pairwiseJudge\<close> has exactly \<open>2n\<close>
  pairs, the pair at position \<open>2i\<close> being \<open>(i, (i+1) mod n)\<close> and the pair at position
  \<open>2i+1\<close> being \<open>(i, (i+2) mod n)\<close>. An iteration on a pair of equal indices changes
  nothing and calls no oracle; for \<open>n \<ge> 4\<close> no scheduled pair is of that kind, so the
  tournament makes \<open>2n\<close> oracle calls. Every index is the left member of two scheduled
  pairs and the right member of two, hence occurs in four.
\<close>

theorem comparison_schedule:
  assumes "4 \<le> length answers"
  shows "length (build_pairs (length answers)) = 2 * length answers
    \<and> (\<forall>i < length answers.
          build_pairs (length answers) ! (2 * i) = (i, (i + 1) mod length answers)
        \<and> build_pairs (length answers) ! (2 * i + 1) = (i, (i + 2) mod length answers))
    \<and> compare_step answers orc (i, i) st = st
    \<and> (\<forall>p \<in> set (build_pairs (length answers)). fst p \<noteq> snd p)
    \<and> snd (tournament answers orc) = 2 * length answers
    \<and> (\<forall>j < length answers.
          length (filter (\<lambda>p. fst p = j) (build_pairs (length answers))) = 2
        \<and> length (filter (\<lambda>p. snd p = j) (build_pairs (length answers))) = 2)"
proof -
  let ?n = "length answers"
  have n: "3 \<le> ?n" "2 \<le> ?n" using assms by simp_all
  have "length (build_pairs ?n) = 2 * ?n"
    by (simp add: build_pairs_concat pairs_prefix_length)
  moreover have "\<forall>i < ?n. build_pairs ?n ! (2 * i) = (i, (i + 1) mod ?n)
        \<and> build_pairs ?n ! (2 * i + 1) = (i, (i + 2) mod ?n)"
    using pairs_prefix_nth [of _ ?n ?n] by (simp add: build_pairs_concat)
  moreover have "compare_step answers orc (i, i) st = st"
    by (cases st) (simp add: compare_step_def)
  moreover have "\<forall>p \<in> set (build_pairs ?n). fst p \<noteq> snd p"
    using build_pairs_members [OF _ n(1)] by blast
  moreover have "snd (tournament answers orc) = 2 * ?n"
    by (rule calls_tournament [OF n(1)])
  moreover have "\<forall>j < ?n. length (filter (\<lambda>p. fst p = j) (build_pairs ?n)) = 2
        \<and> length (filter (\<lambda>p. snd p = j) (build_pairs ?n)) = 2"
    using n(2) by (simp add: build_pairs_concat pairs_prefix_left pairs_prefix_right
        count_succ_mod count_succ2_mod)
  ultimately show ?thesis by blast
qed

theorem comparison_schedule_witness:
  "4 \<le> length four_answers
   \<and> length (build_pairs (length four_answers)) = 8
   \<and> build_pairs (length four_answers) ! 6 = (3, 0)
   \<and> build_pairs (length four_answers) ! 7 = (3, 1)
   \<and> snd (tournament four_answers always_failing) = 8
   \<and> length (filter (\<lambda>p. snd p = 0) (build_pairs (length four_answers))) = 2"
proof -
  have h: "4 \<le> length four_answers" by (simp add: four_answers_def)
  have l: "length four_answers = 4" by (simp add: four_answers_def)
  note t = comparison_schedule [OF h, of always_failing 0 "([], 0)"]
  from t have q: "\<forall>i < length four_answers.
      build_pairs (length four_answers) ! (2 * i) = (i, (i + 1) mod length four_answers)
      \<and> build_pairs (length four_answers) ! (2 * i + 1) = (i, (i + 2) mod length four_answers)"
    by blast
  have "(3::nat) < length four_answers" using l by simp
  from q [rule_format, OF this]
  have "build_pairs (length four_answers) ! 6 = (3, 0)
      \<and> build_pairs (length four_answers) ! 7 = (3, 1)"
    using l by simp
  moreover from t have "length (filter (\<lambda>p. snd p = 0) (build_pairs (length four_answers))) = 2"
    using l by simp
  ultimately show ?thesis using t h l by simp
qed

subsection \<open>Direct ranking\<close>

lemma first_occurrences_filter:
  "first_occurrences (filter P xs) = filter P (first_occurrences xs)"
proof (induction xs)
  case Nil
  then show ?case by simp
next
  case (Cons x xs)
  show ?case
  proof (cases "P x")
    case True
    then show ?thesis using Cons.IH by (simp add: conj_commute)
  next
    case False
    then have "filter P (filter (\<lambda>y. y \<noteq> x) (first_occurrences xs)) = filter P (first_occurrences xs)"
      by (auto intro: filter_cong)
    then show ?thesis using False Cons.IH by simp
  qed
qed

lemma set_first_occurrences: "set (first_occurrences xs) = set xs"
  by (induction xs) auto

lemma distinct_first_occurrences: "distinct (first_occurrences xs)"
  by (induction xs) (auto simp: set_first_occurrences)

lemma first_occurrences_distinct: "distinct xs \<Longrightarrow> first_occurrences xs = xs"
  by (induction xs) (auto simp: set_first_occurrences intro: filter_True)

lemma set_known_strings: "set (known_strings ids js) = {s \<in> set ids. JStr s \<in> set js}"
  by (induction ids js rule: known_strings.induct) auto

lemma push_ranked_loop:
  "foldl (push_ranked ids) fin rs =
     fin @ first_occurrences (filter (\<lambda>s. s \<notin> set fin) (known_strings ids rs))"
proof (induction rs arbitrary: fin)
  case Nil
  then show ?case by simp
next
  case (Cons r rs)
  show ?case
  proof (cases r)
    case (JStr s)
    show ?thesis
    proof (cases "s \<in> set ids \<and> s \<notin> set fin")
      case True
      have "filter (\<lambda>t. t \<notin> set (fin @ [s])) (known_strings ids rs)
              = filter (\<lambda>y. y \<noteq> s) (filter (\<lambda>t. t \<notin> set fin) (known_strings ids rs))"
        by (auto intro: filter_cong)
      then show ?thesis using True JStr Cons.IH [of "fin @ [s]"]
        by (simp add: first_occurrences_filter)
    next
      case False
      then show ?thesis using JStr Cons.IH [of fin] by auto
    qed
  qed (simp_all add: Cons.IH)
qed

lemma push_missing_loop:
  "distinct xs \<Longrightarrow> foldl push_missing fin xs = fin @ filter (\<lambda>i. i \<notin> set fin) xs"
proof (induction xs arbitrary: fin)
  case Nil
  then show ?case by simp
next
  case (Cons x xs)
  then have "filter (\<lambda>i. i \<notin> set (fin @ [x])) xs = filter (\<lambda>i. i \<notin> set fin) xs"
    by (auto intro: filter_cong)
  then show ?case using Cons by (simp add: push_missing_def)
qed

text \<open>The two loops together, for any iterated value.\<close>

lemma final_rankings_shape:
  assumes "distinct ids"
  shows "foldl push_missing (foldl (push_ranked ids) [] rs) ids =
           first_occurrences (known_strings ids rs) @ filter (\<lambda>i. JStr i \<notin> set rs) ids"
proof -
  have "filter (\<lambda>i. i \<notin> set (first_occurrences (known_strings ids rs))) ids
          = filter (\<lambda>i. JStr i \<notin> set rs) ids"
    by (auto simp: set_first_occurrences set_known_strings intro: filter_cong)
  then show ?thesis using assms by (simp add: push_ranked_loop push_missing_loop)
qed

lemma final_rankings_permutation:
  assumes "distinct ids"
  shows "distinct (foldl push_missing (foldl (push_ranked ids) [] rs) ids)
       \<and> set (foldl push_missing (foldl (push_ranked ids) [] rs) ids) = set ids"
  using assms
  by (auto simp: final_rankings_shape distinct_first_occurrences set_first_occurrences
      set_known_strings)

lemma rank_parsed_sound:
  assumes "rank_parsed answers parsed = Inr res"
  shows "distinct (rankings res) \<and> set (rankings res) = set (map entry_id answers)
       \<and> set (goodAnswers res) \<subseteq> set (map entry_id answers)
       \<and> (answers \<noteq> [] \<longrightarrow> goodAnswers res \<noteq> [])"
proof -
  let ?all = "js_set (map entry_id answers)"
  from assms obtain rs gs where
    res: "res = \<lparr>rankings = foldl push_missing (foldl (push_ranked ?all) [] rs) ?all,
                 goodAnswers = (if length (known_strings ?all gs) > 0 then known_strings ?all gs
                                else take 1 (foldl push_missing (foldl (push_ranked ?all) [] rs) ?all))\<rparr>"
    by (auto simp: rank_parsed_def Let_def split: sum.splits)
  let ?fin = "foldl push_missing (foldl (push_ranked ?all) [] rs) ?all"
  have perm: "distinct ?fin \<and> set ?fin = set ?all"
    by (rule final_rankings_permutation [OF distinct_js_set])
  have good: "set (known_strings ?all gs) \<subseteq> set ?all"
    by (auto simp: set_known_strings)
  have "set (take 1 ?fin) \<subseteq> set ?all" using perm set_take_subset [of 1 ?fin] by simp
  moreover have "answers \<noteq> [] \<longrightarrow> take 1 ?fin \<noteq> []"
    using perm by (cases ?fin) (auto simp: set_js_set)
  ultimately show ?thesis using perm good by (auto simp: res set_js_set)
qed

lemma directRank_sound:
  assumes "distinct (map entry_id answers)"
  shows "distinct (rankings (fst (directRank answers orc)))
       \<and> set (rankings (fst (directRank answers orc))) = set (map entry_id answers)
       \<and> set (goodAnswers (fst (directRank answers orc))) \<subseteq> set (map entry_id answers)
       \<and> (answers \<noteq> [] \<longrightarrow> goodAnswers (fst (directRank answers orc)) \<noteq> [])
       \<and> snd (directRank answers orc) = 1"
proof (cases "\<exists>parsed res. orc 0 = Json parsed \<and> rank_parsed answers parsed = Inr res")
  case True
  then obtain parsed res where "orc 0 = Json parsed" "rank_parsed answers parsed = Inr res" by blast
  then show ?thesis using rank_parsed_sound [of answers parsed res] by (simp add: directRank_def)
next
  case False
  then have "directRank answers orc = (identity_result answers, 1)"
    by (auto simp: directRank_def split: response.splits sum.splits)
  then show ?thesis using assms by (simp add: identity_result_def)
qed

text \<open>
  C7. In direct mode (two or three answers with distinct identifiers), when the response
  parses to an object whose \<^verbatim>\<open>answer_rankings\<close> and \<^verbatim>\<open>good_answers\<close> are arrays: the
  ranking consists of the known identifiers of the returned ordering, each kept at its
  first occurrence only (entries outside the candidate set are dropped), followed by the
  identifiers the ordering omitted, in input order. The good list is the list of known
  identifiers of the returned good list; when that has no known identifier (it is empty
  or entirely unknown) the good list is the singleton of the top-ranked candidate.
\<close>

theorem direct_rank_structured:
  assumes "2 \<le> length answers" and "length answers \<le> 3"
    and "distinct (map entry_id answers)"
    and "orc 0 = Json (JObj kvs)"
    and "map_of kvs ''answer_rankings'' = Some (JArr rs)"
    and "map_of kvs ''good_answers'' = Some (JArr gs)"
  shows "rankings (fst (pairwiseJudge answers orc)) =
           first_occurrences (known_strings (map entry_id answers) rs)
           @ filter (\<lambda>i. JStr i \<notin> set rs) (map entry_id answers)
       \<and> goodAnswers (fst (pairwiseJudge answers orc)) =
           (if known_strings (map entry_id answers) gs = []
            then [hd (rankings (fst (pairwiseJudge answers orc)))]
            else known_strings (map entry_id answers) gs)
       \<and> (known_strings (map entry_id answers) gs = []) =
           (set gs \<inter> JStr ` set (map entry_id answers) = {})"
proof -
  let ?ids = "map entry_id answers"
  define fin where
    "fin = first_occurrences (known_strings ?ids rs) @ filter (\<lambda>i. JStr i \<notin> set rs) ?ids"
  define good where
    "good = (if known_strings ?ids gs = [] then [hd fin] else known_strings ?ids gs)"
  have all: "js_set ?ids = ?ids" by (rule js_set_distinct_id [OF assms(3)])
  have loops: "foldl push_missing (foldl (push_ranked ?ids) [] rs) ?ids = fin"
    unfolding fin_def by (rule final_rankings_shape [OF assms(3)])
  have "set fin = set ?ids"
    using final_rankings_permutation [OF assms(3), of rs] by (simp only: loops)
  moreover have "?ids \<noteq> []" using assms(1) by auto
  ultimately have "fin \<noteq> []" by (metis set_empty)
  then have top: "take (Suc 0) fin = [hd fin]" by (cases fin) simp_all
  have parsed: "rank_parsed answers (JObj kvs) = Inr \<lparr>rankings = fin, goodAnswers = good\<rparr>"
    using assms(5,6) by (simp add: rank_parsed_def all loops top good_def Let_def)
  have "pairwiseJudge answers orc = directRank answers orc"
    using assms(1,2) by (simp add: pairwiseJudge_def)
  then have res: "fst (pairwiseJudge answers orc) = \<lparr>rankings = fin, goodAnswers = good\<rparr>"
    using assms(4) parsed by (simp add: directRank_def)
  have "(known_strings ?ids gs = []) = (set gs \<inter> JStr ` set ?ids = {})"
    using set_known_strings [of ?ids gs] by (auto simp flip: set_empty)
  then show ?thesis unfolding res by (simp add: fin_def good_def)
qed

theorem direct_rank_structured_witness:
  "2 \<le> length three_answers \<and> length three_answers \<le> 3
   \<and> distinct (map entry_id three_answers)
   \<and> rankings (fst (pairwiseJudge three_answers careless_ranking)) = [''c'', ''a'', ''b'']
   \<and> goodAnswers (fst (pairwiseJudge three_answers careless_ranking)) = [''c'']"
  using direct_rank_structured [of three_answers careless_ranking
      "[(''answer_rankings'', JArr [JStr ''c'', JStr ''z'', JStr ''c'', JNum 3]),
        (''good_answers'', JArr [JStr ''q''])]"
      "[JStr ''c'', JStr ''z'', JStr ''c'', JNum 3]" "[JStr ''q'']"]
  by (simp add: three_answers_def careless_ranking_def entry_def)

subsection \<open>The tournament\<close>

lemma pairwiseJudge_tournament:
  assumes "4 \<le> length answers"
  shows "pairwiseJudge answers orc =
    (\<lparr>rankings = map fst (js_sort by_wins_desc (own_entries (fst (tournament answers orc)))),
      goodAnswers =
        take (max 1 (ceil_half (length (own_entries (fst (tournament answers orc))))))
          (map fst (js_sort by_wins_desc (own_entries (fst (tournament answers orc)))))\<rparr>,
     snd (tournament answers orc))"
proof -
  have "length (js_sort by_wins_desc xs) = length xs" for xs :: "(string \<times> nat) list"
    using mset_js_sort [of xs] by (metis size_mset)
  then show ?thesis using assms
    by (simp add: pairwiseJudge_def Let_def split: prod.splits)
qed

lemma mset_tournament_ranking:
  assumes "distinct (map entry_id answers)"
  shows "mset (map fst (js_sort by_wins_desc (own_entries (fst (tournament answers orc)))))
           = mset (filter (\<lambda>k. k \<noteq> proto_key) (map entry_id answers))"
proof -
  have "mset (map fst (js_sort by_wins_desc (own_entries (fst (tournament answers orc)))))
          = image_mset fst (mset (fst (tournament answers orc)))"
    by (simp add: mset_js_sort mset_own_entries)
  also have "\<dots> = mset (map fst (fst (tournament answers orc)))" by simp
  finally show ?thesis by (simp only: keys_tournament [OF assms])
qed

lemma length_without_proto:
  assumes "distinct ks"
  shows "length ks \<le> Suc (length (filter (\<lambda>k. k \<noteq> proto_key) ks))"
proof -
  have "length (filter (\<lambda>k. k = proto_key) ks) \<le> 1"
    using assms by (induction ks) (auto simp: filter_empty_conv)
  moreover have "length ks = length (filter (\<lambda>k. k = proto_key) ks)
      + length (filter (\<lambda>k. \<not> k = proto_key) ks)"
    by (rule sum_length_filter_compl [symmetric])
  ultimately show ?thesis by simp
qed

text \<open>The ranking engine never invents an identifier and never repeats one.\<close>

lemma pairwiseJudge_sound:
  assumes "distinct (map entry_id answers)"
  shows "distinct (rankings (fst (pairwiseJudge answers orc)))
       \<and> set (rankings (fst (pairwiseJudge answers orc))) \<subseteq> set (map entry_id answers)
       \<and> set (map entry_id answers) - {proto_key} \<subseteq> set (rankings (fst (pairwiseJudge answers orc)))
       \<and> set (goodAnswers (fst (pairwiseJudge answers orc))) \<subseteq> set (map entry_id answers)
       \<and> (answers \<noteq> [] \<longrightarrow> goodAnswers (fst (pairwiseJudge answers orc)) \<noteq> [])"
proof -
  let ?ids = "map entry_id answers"
  consider "length answers \<le> 1" | "2 \<le> length answers" "length answers \<le> 3" | "4 \<le> length answers"
    by linarith
  then show ?thesis
  proof cases
    case 1
    then show ?thesis using assms by (auto simp: pairwiseJudge_def identity_result_def)
  next
    case 2
    then have "pairwiseJudge answers orc = directRank answers orc"
      by (simp add: pairwiseJudge_def)
    then show ?thesis using directRank_sound [OF assms, of orc] by auto
  next
    case 3
    let ?sorted = "map fst (js_sort by_wins_desc (own_entries (fst (tournament answers orc))))"
    let ?m = "length (own_entries (fst (tournament answers orc)))"
    have m: "mset ?sorted = mset (filter (\<lambda>k. k \<noteq> proto_key) ?ids)"
      by (rule mset_tournament_ranking [OF assms])
    have d: "distinct ?sorted"
      using assms mset_eq_imp_distinct_iff [OF m] by simp
    have s: "set ?sorted = set ?ids - {proto_key}"
      using mset_eq_setD [OF m] by auto
    have "length ?sorted = length (filter (\<lambda>k. k \<noteq> proto_key) ?ids)"
      using m by (metis size_mset)
    then have "3 \<le> length ?sorted" using length_without_proto [OF assms] 3 by simp
    then have ne: "take (max 1 (ceil_half ?m)) ?sorted \<noteq> []" by auto
    have "set (take (max 1 (ceil_half ?m)) ?sorted) \<subseteq> set ?sorted" by (rule set_take_subset)
    then show ?thesis using d s ne
      by (auto simp: pairwiseJudge_tournament [OF 3])
  qed
qed

text \<open>
  C2. For every non-empty list of answers with pairwise distinct identifiers and every
  behaviour of the oracle, the good list returned by \<^verbatim>\<open>pairwiseJudge\<close> is non-empty and
  each of its identifiers is an identifier of the input.
\<close>

theorem good_nonempty_subset:
  assumes "answers \<noteq> []" and "distinct (map entry_id answers)"
  shows "goodAnswers (fst (pairwiseJudge answers orc)) \<noteq> []
       \<and> set (goodAnswers (fst (pairwiseJudge answers orc))) \<subseteq> set (map entry_id answers)"
  using pairwiseJudge_sound [OF assms(2), of orc] assms(1) by simp

theorem good_nonempty_subset_witness:
  "four_answers \<noteq> [] \<and> distinct (map entry_id four_answers)
   \<and> goodAnswers (fst (pairwiseJudge four_answers always_first)) \<noteq> []
   \<and> set (goodAnswers (fst (pairwiseJudge four_answers always_first)))
        \<subseteq> set (map entry_id four_answers)"
proof -
  have h: "four_answers \<noteq> []" "distinct (map entry_id four_answers)"
    by (simp_all add: four_answers_def entry_def)
  from good_nonempty_subset [OF h, of always_first] h show ?thesis by simp
qed

subsection \<open>Order among equal win counts\<close>

lemma tally_values:
  assumes "distinct (map fst ob)" and "e \<in> set ob"
  shows "map_of ob (fst e) = Some (snd e)"
  using assms by (cases e) simp

lemma filter_by_value:
  assumes "\<forall>e \<in> set xs. f (fst e) = Some (snd e)"
  shows "filter (\<lambda>i. f i = Some c) (map fst xs) = map fst (filter (\<lambda>e. snd e = c) xs)"
  using assms by (induction xs) auto

lemma tournament_all_ties:
  assumes "distinct (map entry_id answers)" and "\<forall>k. verdict (orc k) = NoWinner"
  shows "fst (tournament answers orc) =
           map (\<lambda>k. (k, 0)) (filter (\<lambda>k. k \<noteq> proto_key) (map entry_id answers))"
  using assms by (simp add: tournament_def no_winner_run init_counts_distinct)

lemma ranking_all_ties:
  assumes "4 \<le> length answers" and "distinct (map entry_id answers)"
    and "\<forall>k. verdict (orc k) = NoWinner"
  shows "rankings (fst (pairwiseJudge answers orc)) =
           property_order (filter (\<lambda>k. k \<noteq> proto_key) (map entry_id answers))"
proof -
  let ?w = "fst (tournament answers orc)"
  have w: "?w = map (\<lambda>k. (k, 0)) (filter (\<lambda>k. k \<noteq> proto_key) (map entry_id answers))"
    by (rule tournament_all_ties [OF assms(2,3)])
  have "\<forall>e \<in> set (own_entries ?w). snd e = 0"
  proof
    fix e assume "e \<in> set (own_entries ?w)"
    then have "e \<in># mset (own_entries ?w)" by simp
    then have "e \<in> set ?w" by (simp only: mset_own_entries set_mset_mset)
    then show "snd e = 0" by (auto simp: w)
  qed
  then have "js_sort by_wins_desc (own_entries ?w) = own_entries ?w"
    by (rule js_sort_all_equal)
  then have "rankings (fst (pairwiseJudge answers orc)) = property_order (map fst ?w)"
    by (simp add: pairwiseJudge_tournament [OF assms(1)] keys_own_entries)
  then show ?thesis by (simp only: keys_tournament [OF assms(2)])
qed

lemma ranking_stable:
  assumes "4 \<le> length answers" and "distinct (map entry_id answers)"
  shows "filter (\<lambda>i. map_of (fst (tournament answers orc)) i = Some c)
             (rankings (fst (pairwiseJudge answers orc)))
       = filter (\<lambda>i. map_of (fst (tournament answers orc)) i = Some c)
             (property_order (filter (\<lambda>k. k \<noteq> proto_key) (map entry_id answers)))"
proof -
  let ?w = "fst (tournament answers orc)"
  let ?E = "own_entries ?w"
  let ?S = "js_sort by_wins_desc ?E"
  have keys: "map fst ?w = filter (\<lambda>k. k \<noteq> proto_key) (map entry_id answers)"
    by (rule keys_tournament [OF assms(2)])
  then have dw: "distinct (map fst ?w)" using assms(2) by simp
  have setE: "set ?E = set ?w" using mset_own_entries [of ?w] by (metis set_mset_mset)
  have setS: "set ?S = set ?w" using mset_js_sort [of ?E] setE by (metis set_mset_mset)
  have vE: "\<forall>e \<in> set ?E. map_of ?w (fst e) = Some (snd e)"
    using tally_values [OF dw] setE by blast
  have vS: "\<forall>e \<in> set ?S. map_of ?w (fst e) = Some (snd e)"
    using tally_values [OF dw] setS by blast
  have "filter (\<lambda>i. map_of ?w i = Some c) (map fst ?S) = map fst (filter (\<lambda>e. snd e = c) ?S)"
    by (rule filter_by_value [OF vS])
  also have "\<dots> = map fst (filter (\<lambda>e. snd e = c) ?E)"
    by (simp only: js_sort_stable)
  also have "\<dots> = filter (\<lambda>i. map_of ?w i = Some c) (map fst ?E)"
    by (rule filter_by_value [OF vE, symmetric])
  finally show ?thesis
    by (simp add: pairwiseJudge_tournament [OF assms(1)] keys_own_entries keys)
qed

lemma without_proto: "proto_key \<notin> set ks \<Longrightarrow> filter (\<lambda>k. k \<noteq> proto_key) ks = ks"
  by (induction ks) auto

text \<open>When no identifier is an array index or \<^verbatim>\<open>__proto__\<close>, the tie-break is the
  input order: with no winner at all the ranking is the input order, and for every
  oracle the candidates with the same final win count keep their relative input order.\<close>

lemma tie_break_input_order:
  assumes "4 \<le> length answers" and "distinct (map entry_id answers)"
    and "proto_key \<notin> set (map entry_id answers)"
    and "list_all (\<lambda>k. \<not> is_array_index k) (map entry_id answers)"
  shows "((\<forall>k. verdict (orc k) = NoWinner) \<longrightarrow>
            rankings (fst (pairwiseJudge answers orc)) = map entry_id answers)
       \<and> filter (\<lambda>i. map_of (fst (tournament answers orc)) i = Some c)
             (rankings (fst (pairwiseJudge answers orc)))
           = filter (\<lambda>i. map_of (fst (tournament answers orc)) i = Some c)
               (map entry_id answers)"
  using ranking_all_ties [OF assms(1,2), of orc] ranking_stable [OF assms(1,2), of orc c]
  by (simp add: without_proto [OF assms(3)] property_order_plain [OF assms(4)])

text \<open>
  C4. The tie-break by input order fails for identifiers that are array indices. For the
  four answers with the pairwise distinct identifiers 2, 1, x, y, in this order, and every
  comparison a tie, all win counts are zero and the ranking is 1, 2, x, y, not the input
  order: the tally is an ordinary object, whose entries come with the array indices
  first. The direct path keeps the input order 2, 1, x for such identifiers.
\<close>

theorem index_ids_reordered:
  "4 \<le> length numeric_answers \<and> distinct (map entry_id numeric_answers)
   \<and> fst (tournament numeric_answers always_tie) = [(''2'', 0), (''1'', 0), (''x'', 0), (''y'', 0)]
   \<and> rankings (fst (pairwiseJudge numeric_answers always_tie)) = [''1'', ''2'', ''x'', ''y'']
   \<and> rankings (fst (pairwiseJudge numeric_answers always_tie)) \<noteq> map entry_id numeric_answers
   \<and> rankings (fst (pairwiseJudge numeric_three always_failing)) = [''2'', ''1'', ''x'']"
  by (simp add: numeric_answers_def numeric_three_def entry_def pairwiseJudge_def tournament_def
      init_counts_def obj_set_def proto_key_def build_pairs_def run_comparisons_def
      compare_step_def verdict_def always_tie_def always_failing_def directRank_def
      identity_result_def own_entries_def is_array_index_def is_digit_def
      dec_value_def digit_val_def js_sort_def by_wins_desc_def ceil_half_def)

subsection \<open>Total failure of the oracle\<close>

lemma tournament_result:
  assumes "4 \<le> length answers" and "distinct (map entry_id answers)"
  shows "mset (rankings (fst (pairwiseJudge answers orc)))
           = mset (filter (\<lambda>k. k \<noteq> proto_key) (map entry_id answers))
       \<and> goodAnswers (fst (pairwiseJudge answers orc))
           = take (max 1 (ceil_half (length (rankings (fst (pairwiseJudge answers orc))))))
               (rankings (fst (pairwiseJudge answers orc)))"
proof -
  let ?S = "js_sort by_wins_desc (own_entries (fst (tournament answers orc)))"
  have len: "length (own_entries (fst (tournament answers orc))) = length (map fst ?S)"
    using mset_js_sort [of "own_entries (fst (tournament answers orc))"] by (metis size_mset length_map)
  have r: "rankings (fst (pairwiseJudge answers orc)) = map fst ?S"
    by (simp add: pairwiseJudge_tournament [OF assms(1)])
  have g: "goodAnswers (fst (pairwiseJudge answers orc))
      = take (max 1 (ceil_half (length (own_entries (fst (tournament answers orc)))))) (map fst ?S)"
    by (simp add: pairwiseJudge_tournament [OF assms(1)])
  show ?thesis
    unfolding r g len using mset_tournament_ranking [OF assms(2), of orc] by simp
qed

lemma tournament_ranking_length:
  assumes "4 \<le> length answers" and "distinct (map entry_id answers)"
  shows "length (rankings (fst (pairwiseJudge answers orc)))
           = length (filter (\<lambda>k. k \<noteq> proto_key) (map entry_id answers))"
  using tournament_result [OF assms, of orc] by (metis size_mset)

text \<open>
  C3, as the code has it. For answers with pairwise distinct identifiers and an oracle
  whose every call throws, \<^verbatim>\<open>pairwiseJudge\<close> returns (the model is total: nothing
  escapes). With at most three answers the ranking is the input order and the good list
  is the full list of identifiers. With four or more answers, none of whose identifiers
  is an array index or \<^verbatim>\<open>__proto__\<close>, the ranking is the input order and the good list
  is only its first \<open>max 1 (ceil (n / 2))\<close> members.
\<close>

theorem total_failure_fallback:
  assumes "distinct (map entry_id answers)" and "\<forall>k. orc k = Failed"
  shows "(length answers \<le> 3 \<longrightarrow> fst (pairwiseJudge answers orc) = identity_result answers)
       \<and> (4 \<le> length answers \<and> proto_key \<notin> set (map entry_id answers)
            \<and> list_all (\<lambda>k. \<not> is_array_index k) (map entry_id answers) \<longrightarrow>
            rankings (fst (pairwiseJudge answers orc)) = map entry_id answers
          \<and> goodAnswers (fst (pairwiseJudge answers orc))
              = take (max 1 (ceil_half (length answers))) (map entry_id answers))"
proof -
  have small: "length answers \<le> 3 \<longrightarrow> fst (pairwiseJudge answers orc) = identity_result answers"
    using assms(2) by (simp add: pairwiseJudge_def directRank_def Let_def)
  have big: "rankings (fst (pairwiseJudge answers orc)) = map entry_id answers
          \<and> goodAnswers (fst (pairwiseJudge answers orc))
              = take (max 1 (ceil_half (length answers))) (map entry_id answers)"
    if n: "4 \<le> length answers" and np: "proto_key \<notin> set (map entry_id answers)"
      and ni: "list_all (\<lambda>k. \<not> is_array_index k) (map entry_id answers)"
  proof -
    have "\<forall>k. verdict (orc k) = NoWinner" using assms(2) by (simp add: verdict_def)
    from ranking_all_ties [OF n assms(1) this]
    have r: "rankings (fst (pairwiseJudge answers orc)) = map entry_id answers"
      by (simp add: without_proto [OF np] property_order_plain [OF ni])
    have "length (rankings (fst (pairwiseJudge answers orc))) = length answers"
      using tournament_ranking_length [OF n assms(1), of orc]
      by (simp add: without_proto [OF np])
    then show ?thesis using tournament_result [OF n assms(1), of orc] r by simp
  qed
  show ?thesis using small big by blast
qed

theorem total_failure_fallback_witness:
  "distinct (map entry_id four_answers) \<and> 4 \<le> length four_answers
   \<and> proto_key \<notin> set (map entry_id four_answers)
   \<and> list_all (\<lambda>k. \<not> is_array_index k) (map entry_id four_answers)
   \<and> rankings (fst (pairwiseJudge four_answers always_failing)) = [''a'', ''b'', ''c'', ''d'']
   \<and> goodAnswers (fst (pairwiseJudge four_answers always_failing)) = [''a'', ''b'']
   \<and> distinct (map entry_id proto_pair) \<and> length proto_pair \<le> 3
   \<and> fst (pairwiseJudge proto_pair always_failing) = identity_result proto_pair"
proof -
  have f: "\<forall>k. always_failing k = Failed" by (simp add: always_failing_def)
  have h4: "distinct (map entry_id four_answers)" "4 \<le> length four_answers"
    "proto_key \<notin> set (map entry_id four_answers)"
    by (simp_all add: four_answers_def entry_def proto_key_def)
  have p: "list_all (\<lambda>k. \<not> is_array_index k) (map entry_id four_answers)"
    by (simp add: four_answers_def entry_def is_array_index_def is_digit_def)
  have h2: "distinct (map entry_id proto_pair)" "length proto_pair \<le> 3"
    by (simp_all add: proto_pair_def entry_def)
  have l: "length four_answers = 4" by (simp add: four_answers_def)
  from total_failure_fallback [OF h4(1) f] h4 p l
  have "rankings (fst (pairwiseJudge four_answers always_failing)) = map entry_id four_answers
      \<and> goodAnswers (fst (pairwiseJudge four_answers always_failing))
          = take (max 1 (ceil_half 4)) (map entry_id four_answers)"
    by simp
  then have "rankings (fst (pairwiseJudge four_answers always_failing)) = [''a'', ''b'', ''c'', ''d'']
      \<and> goodAnswers (fst (pairwiseJudge four_answers always_failing)) = [''a'', ''b'']"
    by (simp add: four_answers_def entry_def ceil_half_def)
  moreover from total_failure_fallback [OF h2(1) f] h2
  have "fst (pairwiseJudge proto_pair always_failing) = identity_result proto_pair"
    by simp
  ultimately show ?thesis using h4 h2 p by simp
qed

text \<open>The claim as stated fails in tournament mode: with four answers and every call
  throwing, the good list has two of the four identifiers.\<close>

theorem total_failure_fallback_counterexample:
  "4 \<le> length four_answers \<and> distinct (map entry_id four_answers)
   \<and> goodAnswers (fst (pairwiseJudge four_answers always_failing)) = [''a'', ''b'']
   \<and> set (goodAnswers (fst (pairwiseJudge four_answers always_failing)))
        \<noteq> set (map entry_id four_answers)"
  by code_simp

subsection \<open>The identifier \<^verbatim>\<open>__proto__\<close>\<close>

text \<open>When no identifier is \<^verbatim>\<open>__proto__\<close>, the ranking is a permutation of the input
  identifiers in every mode and for every oracle; in tournament mode the good list is
  the first \<open>max 1 (ceil (n / 2))\<close> members of the ranking, and no candidate outside the
  good list has more wins than one inside.\<close>

lemma pairwiseJudge_permutation:
  assumes "distinct (map entry_id answers)" and "proto_key \<notin> set (map entry_id answers)"
  shows "distinct (rankings (fst (pairwiseJudge answers orc)))
       \<and> set (rankings (fst (pairwiseJudge answers orc))) = set (map entry_id answers)"
  using pairwiseJudge_sound [OF assms(1), of orc] assms(2) by auto

lemma ceil_half_ceiling: "ceil_half m = nat \<lceil>real m / 2\<rceil>"
  unfolding ceil_half_def by linarith

lemma tournament_good_prefix:
  assumes "4 \<le> length answers" and "distinct (map entry_id answers)"
    and "proto_key \<notin> set (map entry_id answers)"
  shows "goodAnswers (fst (pairwiseJudge answers orc))
           = take (max 1 (ceil_half (length answers))) (rankings (fst (pairwiseJudge answers orc)))"
  using tournament_result [OF assms(1,2), of orc] tournament_ranking_length [OF assms(1,2), of orc]
  by (simp add: without_proto [OF assms(3)])

lemma tournament_good_are_top:
  assumes "4 \<le> length answers" and "distinct (map entry_id answers)"
    and "g \<in> set (goodAnswers (fst (pairwiseJudge answers orc)))"
    and "x \<in> set (rankings (fst (pairwiseJudge answers orc)))"
    and "x \<notin> set (goodAnswers (fst (pairwiseJudge answers orc)))"
  shows "\<exists>cg cx. map_of (fst (tournament answers orc)) g = Some cg
             \<and> map_of (fst (tournament answers orc)) x = Some cx \<and> cx \<le> cg"
proof -
  let ?w = "fst (tournament answers orc)"
  let ?S = "js_sort by_wins_desc (own_entries ?w)"
  let ?k = "max 1 (ceil_half (length (own_entries ?w)))"
  have dw: "distinct (map fst ?w)" using assms(2) by (simp add: keys_tournament)
  have setS: "set ?S = set ?w"
    using mset_js_sort [of "own_entries ?w"] mset_own_entries [of ?w] by (metis set_mset_mset)
  have r: "rankings (fst (pairwiseJudge answers orc)) = map fst ?S"
    and gd: "goodAnswers (fst (pairwiseJudge answers orc)) = map fst (take ?k ?S)"
    by (simp_all add: pairwiseJudge_tournament [OF assms(1)] take_map)
  from assms(3) obtain eg where eg: "eg \<in> set (take ?k ?S)" "fst eg = g"
    unfolding gd by auto
  from assms(4) obtain ex where ex: "ex \<in> set ?S" "fst ex = x"
    unfolding r by auto
  have "ex \<notin> set (take ?k ?S)" using assms(5) ex(2) unfolding gd by force
  then have exd: "ex \<in> set (drop ?k ?S)"
    using ex(1) by (metis Un_iff append_take_drop_id set_append)
  have "sorted_wrt (\<lambda>a b. snd b \<le> snd a) (take ?k ?S @ drop ?k ?S)"
    using js_sort_descending [of "own_entries ?w"] by simp
  then have le: "snd ex \<le> snd eg"
    using eg(1) exd unfolding sorted_wrt_append by blast
  have "eg \<in> set ?S" using eg(1) by (rule in_set_takeD)
  then have "eg \<in> set ?w" using setS by simp
  then have "map_of ?w g = Some (snd eg)" using tally_values [OF dw] eg(2) by blast
  moreover have "map_of ?w x = Some (snd ex)" using tally_values [OF dw] ex setS by blast
  ultimately show ?thesis using le by blast
qed

text \<open>
  C1. The permutation property fails for the identifier \<^verbatim>\<open>__proto__\<close> in tournament
  mode. For four answers with pairwise distinct identifiers, the first of them
  \<^verbatim>\<open>__proto__\<close>, and for every oracle, the ranking consists of the three other
  identifiers only (in input order when every call throws), and the validation of the
  caller skips the round.
\<close>

theorem proto_id_omitted:
  "distinct (map entry_id proto_answers)
   \<and> mset (rankings (fst (pairwiseJudge proto_answers orc))) = mset [''a'', ''b'', ''c'']
   \<and> rankings (fst (pairwiseJudge proto_answers always_failing)) = [''a'', ''b'', ''c'']
   \<and> judge_round proto_answers orc = Skipped"
proof -
  have h: "4 \<le> length proto_answers" "distinct (map entry_id proto_answers)"
    by (simp_all add: proto_answers_def entry_def)
  have f: "filter (\<lambda>k. k \<noteq> proto_key) (map entry_id proto_answers) = [''a'', ''b'', ''c'']"
    by (simp add: proto_answers_def entry_def proto_key_def)
  have m: "mset (rankings (fst (pairwiseJudge proto_answers orc))) = mset [''a'', ''b'', ''c'']" for orc
    using tournament_result [OF h, of orc] by (simp only: f)
  have three: "length (rankings (fst (pairwiseJudge proto_answers orc))) = 3"
    using tournament_ranking_length [OF h, of orc] by (simp only: f) simp
  have four: "length (js_set (map entry_id proto_answers)) = 4"
    by (simp add: js_set_distinct_id [OF h(2)]) (simp add: proto_answers_def)
  have "validate_vote proto_answers (rankings (fst (pairwiseJudge proto_answers orc))) good = Skipped"
    for good
    by (simp add: validate_vote_def Let_def three four)
  moreover have "proto_answers \<noteq> []" by (simp add: proto_answers_def)
  ultimately have s: "judge_round proto_answers orc = Skipped"
    by (simp add: judge_round_def split: prod.splits) (metis fst_conv)
  have "rankings (fst (pairwiseJudge proto_answers always_failing)) = [''a'', ''b'', ''c'']"
    by code_simp
  then show ?thesis using h m s by simp
qed

text \<open>
  C8. The size of the good list follows the length of the ranking, not the number of
  candidates. For five answers with pairwise distinct identifiers, the first of them
  \<^verbatim>\<open>__proto__\<close>, and for every oracle, the ranking has four members and the good list
  two, while \<open>max 1 (ceil (5 / 2))\<close> is three: the good list is not the first three members
  of the ranking.
\<close>

theorem proto_id_shrinks_good:
  "distinct (map entry_id proto_five)
   \<and> length (rankings (fst (pairwiseJudge proto_five orc))) = 4
   \<and> length (goodAnswers (fst (pairwiseJudge proto_five orc))) = 2
   \<and> max 1 (ceil_half (length proto_five)) = 3
   \<and> goodAnswers (fst (pairwiseJudge proto_five orc))
       \<noteq> take (max 1 (ceil_half (length proto_five))) (rankings (fst (pairwiseJudge proto_five orc)))"
proof -
  have h: "4 \<le> length proto_five" "distinct (map entry_id proto_five)"
    by (simp_all add: proto_five_def entry_def)
  have f: "filter (\<lambda>k. k \<noteq> proto_key) (map entry_id proto_five) = [''a'', ''b'', ''c'', ''d'']"
    by (simp add: proto_five_def entry_def proto_key_def)
  have l: "length (rankings (fst (pairwiseJudge proto_five orc))) = 4"
    using tournament_ranking_length [OF h, of orc] by (simp only: f) simp
  have c: "max 1 (ceil_half (length proto_five)) = 3" "max 1 (ceil_half 4) = 2"
    by (simp_all add: proto_five_def ceil_half_def)
  have g: "goodAnswers (fst (pairwiseJudge proto_five orc))
      = take 2 (rankings (fst (pairwiseJudge proto_five orc)))"
    using tournament_result [OF h, of orc] by (simp only: l c)
  have "length (take 3 (rankings (fst (pairwiseJudge proto_five orc)))) = 3" using l by simp
  moreover have "length (goodAnswers (fst (pairwiseJudge proto_five orc))) = 2"
    using l by (simp add: g)
  ultimately show ?thesis using h l c by (metis numeral_eq_iff semiring_norm(88))
qed

end
